theory Spec2Isabelle
  imports
    Main
    "HOL-Library.Multiset"
    "HOL-Library.Char_ord"
    "HOL-Library.List_Lexorder"
    "HOL-Library.Product_Lexorder"
begin

section \<open>The HtmlText word-frequency pipeline of src/html_text.py\<close>

text \<open>
  Python strings are modelled as \<^typ>\<open>string\<close>, a list of 8-bit characters read as the
  code points U+0000 .. U+00FF. On that range the character classes used by the
  source (\<^verbatim>\<open>\d\<close> of \<^verbatim>\<open>re\<close>, the white space of \<^verbatim>\<open>str.split()\<close>, \<^verbatim>\<open>str.lower()\<close>)
  are finite tables, written out below, and the order of \<^verbatim>\<open>Char_ord\<close> with
  \<^verbatim>\<open>List_Lexorder\<close> is Python's comparison of strings by code point.
  Calls of the logger have no effect on the state and are left out.
\<close>

subsection \<open>Parser state and the tag stack\<close>

text \<open>\<^verbatim>\<open>TAGS_TO_EXCLUDE\<close>, line 15.\<close>

definition TAGS_TO_EXCLUDE :: "string list" where
  "TAGS_TO_EXCLUDE =
     [''!--'', ''audio'', ''canvas'', ''iframe'', ''noscript'', ''script'',
      ''source'', ''style'', ''title'', ''video'']"

text \<open>
  The attributes of \<^verbatim>\<open>HtmlText.__init__\<close>. The stack \<^verbatim>\<open>_tags\<close> is a Python list
  whose last element is the top; the model keeps that orientation
  (\<^verbatim>\<open>append\<close> is \<open>xs @ [x]\<close>, \<^verbatim>\<open>pop()\<close> takes \<^const>\<open>last\<close> and leaves \<^const>\<open>butlast\<close>).
\<close>

type_synonym frame = "string \<times> bool"

record html_text =
  document_content :: string
  tags :: "frame list"
  parsed_text :: string

definition init :: html_text where
  "init = \<lparr>document_content = [], tags = [([], False)], parsed_text = []\<rparr>"

text \<open>
  A Python exception leaves the mutations made before it in place, so an error
  carries the state in which it was raised.
\<close>

datatype error = IndexError

type_synonym 'a result = "(error \<times> html_text) + 'a"

text \<open>
  An attribute is a pair of a name and a value; \<^verbatim>\<open>html.parser\<close> passes the value
  \<^verbatim>\<open>None\<close> for an attribute written without one.
\<close>

type_synonym attr = "string \<times> string option"

text \<open>\<^verbatim>\<open>handle_starttag\<close>, lines 60-64.\<close>

definition handle_starttag :: "string \<Rightarrow> attr list \<Rightarrow> html_text \<Rightarrow> html_text" where
  "handle_starttag tag attrs st =
     (let hidden = (if ''hidden'' \<in> set (map fst attrs) then True else False)
      in st\<lparr>tags := tags st @ [(tag, hidden)]\<rparr>)"

text \<open>
  \<^verbatim>\<open>handle_endtag\<close>, lines 66-70: \<^verbatim>\<open>while tag != self._tags.pop()[0]\<close>.
  \<^verbatim>\<open>pop()\<close> on the empty list raises \<^verbatim>\<open>IndexError\<close>.
\<close>

function handle_endtag :: "string \<Rightarrow> html_text \<Rightarrow> html_text result" where
  "handle_endtag tag st =
     (if tags st = [] then Inl (IndexError, st)
      else if tag \<noteq> fst (last (tags st))
        then handle_endtag tag (st\<lparr>tags := butlast (tags st)\<rparr>)
        else Inr (st\<lparr>tags := butlast (tags st)\<rparr>))"
  by pat_completeness auto
termination
  by (relation "measure (\<lambda>(tag, st). length (tags st))") auto

declare handle_endtag.simps [simp del]

text \<open>
  \<^verbatim>\<open>handle_data\<close>, lines 72-75. \<^verbatim>\<open>self._tags[-1]\<close> raises \<^verbatim>\<open>IndexError\<close> on the
  empty list.
\<close>

definition handle_data :: "string \<Rightarrow> html_text \<Rightarrow> html_text result" where
  "handle_data raw_text st =
     (if tags st = [] then Inl (IndexError, st)
      else if fst (last (tags st)) \<notin> set TAGS_TO_EXCLUDE \<and> snd (last (tags st)) = False
        then Inr (st\<lparr>parsed_text := parsed_text st @ raw_text\<rparr>)
        else Inr st)"

text \<open>
  \<^verbatim>\<open>HTMLParser.feed\<close> belongs to the standard library: it scans the document and
  calls the three handlers in document order. The model takes the sequence of
  those calls as given and runs the handlers over it, stopping at the first
  exception.
\<close>

datatype event = StartTag string "attr list" | EndTag string | Data string

fun handle :: "event \<Rightarrow> html_text \<Rightarrow> html_text result" where
  "handle (StartTag tag attrs) st = Inr (handle_starttag tag attrs st)"
| "handle (EndTag tag) st = handle_endtag tag st"
| "handle (Data raw_text) st = handle_data raw_text st"

fun feed :: "event list \<Rightarrow> html_text \<Rightarrow> html_text result" where
  "feed [] st = Inr st"
| "feed (e # es) st = (case handle e st of Inl err \<Rightarrow> Inl err | Inr st' \<Rightarrow> feed es st')"

text \<open>\<^verbatim>\<open>parse_document\<close>, lines 52-58; \<open>events\<close> are the calls \<^verbatim>\<open>feed\<close> makes on
  \<^verbatim>\<open>document_content\<close>.\<close>

definition parse_document :: "event list \<Rightarrow> html_text \<Rightarrow> html_text result" where
  "parse_document events st = feed events (st\<lparr>tags := [([], False)], parsed_text := []\<rparr>)"

text \<open>
  A properly nested document: pieces of text and elements, each element with its
  start tag, its content and its own end tag. \<open>events_of\<close> lists the handler calls
  \<^verbatim>\<open>html.parser\<close> makes for it, in document order.
\<close>

datatype node = Text string | Element string "attr list" "node list"

fun events_of :: "node \<Rightarrow> event list" where
  "events_of (Text raw_text) = [Data raw_text]"
| "events_of (Element tag attrs children) =
     StartTag tag attrs # concat (map events_of children) @ [EndTag tag]"

text \<open>
  The visible text as the specification words it, for comparison with
  \<open>parse_document\<close>: a piece of text counts iff the element that immediately encloses
  it (\<open>parent\<close>, the name and the hidden flag of the innermost enclosing tag) is
  neither in the exclusion set of the source nor hidden.
\<close>

fun visible_text_spec :: "frame \<Rightarrow> node \<Rightarrow> string" where
  "visible_text_spec parent (Text raw_text) =
     (if fst parent \<notin> set TAGS_TO_EXCLUDE \<and> \<not> snd parent then raw_text else [])"
| "visible_text_spec parent (Element tag attrs children) =
     concat (map (visible_text_spec (tag, ''hidden'' \<in> set (map fst attrs))) children)"


subsection \<open>Text clean-up\<close>

text \<open>
  \<^verbatim>\<open>str.replace(old, new)\<close>: scan from the left, replace each occurrence of
  \<open>old\<close> found and continue after it (occurrences do not overlap). For the empty
  \<open>old\<close> Python puts \<open>new\<close> before every character and at the end.
\<close>

function replace_scan :: "string \<Rightarrow> string \<Rightarrow> string \<Rightarrow> string" where
  "replace_scan old new [] = []"
| "replace_scan old new (c # cs) =
     (if old \<noteq> [] \<and> take (length old) (c # cs) = old
      then new @ replace_scan old new (drop (length old) (c # cs))
      else c # replace_scan old new cs)"
  by pat_completeness auto
termination
  by (relation "measure (\<lambda>(old, new, s). length s)") auto

definition replace :: "string \<Rightarrow> string \<Rightarrow> string \<Rightarrow> string" where
  "replace old new s =
     (if old = [] then new @ concat (map (\<lambda>c. c # new) s) else replace_scan old new s)"

text \<open>The character class \<^verbatim>\<open>\d\<close> on U+0000 .. U+00FF: the ten ASCII digits.\<close>

definition is_digit :: "char \<Rightarrow> bool" where
  "is_digit c = (CHR ''0'' \<le> c \<and> c \<le> CHR ''9'')"

text \<open>
  \<^verbatim>\<open>re.sub(r'((?<!\d))[.,]((?!\d))', r'\1 \2', text)\<close>, lines 97-98. The pattern
  matches one character, a period or a comma, where the character before it in
  \<open>text\<close> is not a digit (or there is none) and the character after it is not a
  digit (or there is none); both groups are empty, so each match becomes one
  space. The look-behind reads the original text: \<open>prev\<close> is the original
  character before the position.
\<close>

fun nan_sub_from :: "char option \<Rightarrow> string \<Rightarrow> string" where
  "nan_sub_from prev [] = []"
| "nan_sub_from prev (c # cs) =
     (if (c = CHR ''.'' \<or> c = CHR '','')
         \<and> \<not> (case prev of None \<Rightarrow> False | Some p \<Rightarrow> is_digit p)
         \<and> \<not> (case cs of [] \<Rightarrow> False | n # _ \<Rightarrow> is_digit n)
      then CHR '' '' else c) # nan_sub_from (Some c) cs"

definition nan_sub :: "string \<Rightarrow> string" where
  "nan_sub text = nan_sub_from None text"

text \<open>\<^verbatim>\<open>remove_extra_characters\<close>, lines 91-99. \<open>CHR 0x27\<close> is the apostrophe,
  \<open>CHR 0x22\<close> the quotation mark, \<open>CHR 0x0A\<close> and \<open>CHR 0x09\<close> newline and tab.\<close>

definition symbols_to_remove :: "string list" where
  "symbols_to_remove = [''&nbsp;'', [CHR 0x27]]"

definition symbols_to_replace :: "string list" where
  "symbols_to_replace =
     [''?'', ''!'', '':'', '';'', ''-'', ''['', '']'', ''{'', ''}'', ''('', '')'',
      [CHR 0x27], [CHR 0x22], ''...'', [CHR 0x0A], [CHR 0x09]]"

definition remove_symbols :: "string \<Rightarrow> string" where
  "remove_symbols text = fold (\<lambda>symbol t. replace symbol [] t) symbols_to_remove text"

definition replace_symbols :: "string \<Rightarrow> string" where
  "replace_symbols text = fold (\<lambda>symbol t. replace symbol '' '' t) symbols_to_replace text"

definition remove_extra_characters :: "string \<Rightarrow> string" where
  "remove_extra_characters text = nan_sub (replace_symbols (remove_symbols text))"

subsection \<open>Tokenization\<close>

text \<open>The white space of \<^verbatim>\<open>str.split()\<close> on U+0000 .. U+00FF.\<close>

definition is_space :: "char \<Rightarrow> bool" where
  "is_space c =
     (c \<in> set [CHR 0x09, CHR 0x0A, CHR 0x0B, CHR 0x0C, CHR 0x0D, CHR 0x1C, CHR 0x1D,
                CHR 0x1E, CHR 0x1F, CHR 0x20, CHR 0x85, CHR 0xA0])"

text \<open>
  \<^verbatim>\<open>str.split()\<close> without a separator: skip white space, take the characters up
  to the next white space as one word, repeat.
\<close>

function split :: "string \<Rightarrow> string list" where
  "split s =
     (if dropWhile is_space s = [] then []
      else takeWhile (\<lambda>c. \<not> is_space c) (dropWhile is_space s)
           # split (dropWhile (\<lambda>c. \<not> is_space c) (dropWhile is_space s)))"
  by pat_completeness auto
termination
proof (relation "measure length")
  show "wf (measure length)" by simp
next
  fix s :: string
  assume ne: "dropWhile is_space s \<noteq> []"
  then obtain c cs where d: "dropWhile is_space s = c # cs"
    by (cases "dropWhile is_space s") auto
  then have "\<not> is_space c"
    using hd_dropWhile [OF ne] by simp
  then have "length (dropWhile (\<lambda>c. \<not> is_space c) (c # cs)) \<le> length cs"
    by (simp add: length_dropWhile_le)
  also have "length cs < length (dropWhile is_space s)"
    using d by simp
  also have "\<dots> \<le> length s"
    by (rule length_dropWhile_le)
  finally show "(dropWhile (\<lambda>c. \<not> is_space c) (dropWhile is_space s), s) \<in> measure length"
    using d by simp
qed

declare split.simps [simp del]

text \<open>\<^verbatim>\<open>str.lower()\<close> on U+0000 .. U+00FF: A-Z and the capital letters
  U+00C0 .. U+00DE other than the multiplication sign U+00D7 move up by 32.\<close>

definition lower_char :: "char \<Rightarrow> char" where
  "lower_char c =
     (if (CHR ''A'' \<le> c \<and> c \<le> CHR ''Z'') \<or> (CHR 0xC0 \<le> c \<and> c \<le> CHR 0xDE \<and> c \<noteq> CHR 0xD7)
      then char_of (of_char c + (32 :: nat)) else c)"

definition lower :: "string \<Rightarrow> string" where
  "lower word = map lower_char word"

text \<open>\<^verbatim>\<open>tokenize\<close>, lines 101-108.\<close>

definition tokenize :: "string \<Rightarrow> string list" where
  "tokenize text = (let words = split text in map lower words)"

text \<open>
  The tokenization as the specification words it, for comparison with \<open>tokenize\<close>:
  cut the text at every white-space character (\<open>fields\<close>; two neighbouring
  white-space characters leave an empty field between them), discard the empty
  fields, lowercase what remains.
\<close>

fun fields :: "string \<Rightarrow> string list" where
  "fields [] = [[]]"
| "fields (c # cs) =
     (if is_space c then [] # fields cs
      else (case fields cs of [] \<Rightarrow> [[c]] | f # fs \<Rightarrow> (c # f) # fs))"

definition tokenize_spec :: "string \<Rightarrow> string list" where
  "tokenize_spec text = map lower (filter (\<lambda>token. token \<noteq> []) (fields text))"

subsection \<open>Frequency ranking\<close>

text \<open>
  \<^verbatim>\<open>{word: words.count(word) for word in set(words)}\<close>, line 121. Python leaves
  the iteration order of a set open; the model lists the distinct words with
  \<^const>\<open>remdups\<close>. The keys of the sort below are pairwise different, so its
  result is the same for every order (lemma \<open>sorted_frequency_any_order\<close>).
\<close>

definition word_frequency :: "string list \<Rightarrow> (string \<times> int) list" where
  "word_frequency words = map (\<lambda>word. (word, int (count_list words word))) (remdups words)"

text \<open>\<^verbatim>\<open>sorted(word_frequency.items(), key=lambda item: (-item[1], item[0]))\<close>,
  line 124: a stable sort on pairs compared lexicographically; \<open>rank_key\<close> is the
  \<^verbatim>\<open>lambda\<close> of the call.\<close>

definition rank_key :: "string \<times> int \<Rightarrow> int \<times> string" where
  "rank_key item = (- snd item, fst item)"

definition sorted_frequency :: "string list \<Rightarrow> (string \<times> int) list" where
  "sorted_frequency words = sort_key rank_key (word_frequency words)"

text \<open>The slice \<^verbatim>\<open>xs[:k]\<close>: a negative \<open>k\<close> counts from the end, and the bound
  is clipped to the list.\<close>

definition slice_to :: "'a list \<Rightarrow> int \<Rightarrow> 'a list" where
  "slice_to xs k =
     (let n = int (length xs);
          stop = (if k < 0 then max 0 (k + n) else min k n)
      in take (nat stop) xs)"

text \<open>\<^verbatim>\<open>find_most_frequent_words\<close>, lines 121-125; \<open>max_words\<close> is the parameter
  \<^verbatim>\<open>max_\<close>.\<close>

definition find_most_frequent_words :: "string list \<Rightarrow> int \<Rightarrow> (string \<times> int) list" where
  "find_most_frequent_words words max_words =
     (let sf = sorted_frequency words
      in slice_to sf (min max_words (int (length sf))))"

section \<open>Properties of the tag stack\<close>

subsection \<open>Closing tags\<close>

lemma handle_endtag_absent:
  "tag \<notin> fst ` set (tags st) \<Longrightarrow> handle_endtag tag st = Inl (IndexError, st\<lparr>tags := []\<rparr>)"
proof (induction tag st rule: handle_endtag.induct)
  case (1 tag st)
  show ?case
  proof (cases "tags st = []")
    case True
    then show ?thesis by (simp add: handle_endtag.simps)
  next
    case False
    then have "last (tags st) \<in> set (tags st)" by simp
    with "1.prems" have ne: "tag \<noteq> fst (last (tags st))" by auto
    have "tag \<notin> fst ` set (tags (st\<lparr>tags := butlast (tags st)\<rparr>))"
      using "1.prems" by (auto dest: in_set_butlastD)
    with "1.IH" [OF False ne]
    have "handle_endtag tag (st\<lparr>tags := butlast (tags st)\<rparr>) = Inl (IndexError, st\<lparr>tags := []\<rparr>)"
      by simp
    with False ne show ?thesis by (subst handle_endtag.simps) simp
  qed
qed

lemma handle_endtag_present:
  "tags st = pre @ (tag, h) # post \<Longrightarrow> tag \<notin> fst ` set post \<Longrightarrow>
   handle_endtag tag st = Inr (st\<lparr>tags := pre\<rparr>)"
proof (induction post arbitrary: st rule: rev_induct)
  case Nil
  then show ?case by (subst handle_endtag.simps) simp
next
  case (snoc x xs)
  from snoc.prems have ne: "tag \<noteq> fst x" by auto
  have "handle_endtag tag (st\<lparr>tags := pre @ (tag, h) # xs\<rparr>) = Inr (st\<lparr>tags := pre\<rparr>)"
    using snoc.IH [of "st\<lparr>tags := pre @ (tag, h) # xs\<rparr>"] snoc.prems by simp
  moreover have "butlast (tags st) = pre @ (tag, h) # xs" "last (tags st) = x"
    using snoc.prems(1) by (simp_all add: butlast_append)
  ultimately show ?case using ne snoc.prems(1) by (subst handle_endtag.simps) simp
qed

lemma handle_endtag_last_occurrence:
  assumes "tag \<in> fst ` set (tags st)"
  shows "\<exists>pre h post. tags st = pre @ (tag, h) # post \<and> tag \<notin> fst ` set post
           \<and> handle_endtag tag st = Inr (st\<lparr>tags := pre\<rparr>)"
proof -
  from assms have "\<exists>x \<in> set (tags st). fst x = tag" by force
  from split_list_last_prop [OF this] obtain pre x post where
    s: "tags st = pre @ x # post" "fst x = tag" "\<forall>z \<in> set post. fst z \<noteq> tag" by blast
  then obtain h where x: "x = (tag, h)" by (cases x) auto
  from s x have "tag \<notin> fst ` set post" by auto
  with s(1) x handle_endtag_present show ?thesis by blast
qed

text \<open>
  C10. An end tag whose name is in no frame of the stack pops every frame, the
  bottom sentinel included, and then fails with the \<^verbatim>\<open>IndexError\<close> of \<^verbatim>\<open>pop()\<close> on
  the empty list, leaving the stack empty. An end tag whose name is in some frame
  does not fail: it removes the last frame of that name and every frame above it.
  So the error is raised exactly when the name is absent from the stack, and it
  is reachable from the one-frame stack a parse starts with.
\<close>

theorem handle_endtag_underflow:
  "(tag \<notin> fst ` set (tags st) \<longrightarrow> handle_endtag tag st = Inl (IndexError, st\<lparr>tags := []\<rparr>))
   \<and> (tag \<in> fst ` set (tags st) \<longrightarrow>
        (\<exists>pre h post. tags st = pre @ (tag, h) # post \<and> tag \<notin> fst ` set post
           \<and> handle_endtag tag st = Inr (st\<lparr>tags := pre\<rparr>)))
   \<and> ((\<exists>err. handle_endtag tag st = Inl err) \<longleftrightarrow> tag \<notin> fst ` set (tags st))"
proof (intro conjI impI)
  assume "tag \<notin> fst ` set (tags st)"
  then show "handle_endtag tag st = Inl (IndexError, st\<lparr>tags := []\<rparr>)"
    by (rule handle_endtag_absent)
next
  assume "tag \<in> fst ` set (tags st)"
  then show "\<exists>pre h post. tags st = pre @ (tag, h) # post \<and> tag \<notin> fst ` set post
               \<and> handle_endtag tag st = Inr (st\<lparr>tags := pre\<rparr>)"
    by (rule handle_endtag_last_occurrence)
next
  show "(\<exists>err. handle_endtag tag st = Inl err) \<longleftrightarrow> tag \<notin> fst ` set (tags st)"
  proof (cases "tag \<in> fst ` set (tags st)")
    case True
    from handle_endtag_last_occurrence [OF True] show ?thesis using True by auto
  next
    case False
    from handle_endtag_absent [OF False] show ?thesis using False by simp
  qed
qed

theorem handle_endtag_underflow_witness:
  "''p'' \<notin> fst ` set (tags init)
   \<and> handle_endtag ''p'' init = Inl (IndexError, init\<lparr>tags := []\<rparr>)
   \<and> ''p'' \<in> fst ` set (tags (init\<lparr>tags := [([], False), (''p'', False), (''b'', True)]\<rparr>))
   \<and> (\<exists>st'. handle_endtag ''p'' (init\<lparr>tags := [([], False), (''p'', False), (''b'', True)]\<rparr>)
          = Inr st')"
  using handle_endtag_underflow [of "''p''" init]
    handle_endtag_underflow [of "''p''" "init\<lparr>tags := [([], False), (''p'', False), (''b'', True)]\<rparr>"]
  by (auto simp: init_def)

text \<open>
  Every run that ends without an exception keeps the sentinel: \<^verbatim>\<open>html.parser\<close> never
  reports an end tag with the empty name, and then the bottom frame is never the
  one an end tag matches.
\<close>

lemma handle_endtag_keeps_sentinel:
  assumes "handle_endtag tag st = Inr st'" and "tag \<noteq> []"
    and "tags st \<noteq> []" and "hd (tags st) = ([], False)"
  shows "tags st' \<noteq> [] \<and> hd (tags st') = ([], False)"
proof -
  have "tag \<in> fst ` set (tags st)"
  proof (rule ccontr)
    assume "tag \<notin> fst ` set (tags st)"
    from handle_endtag_absent [OF this] assms(1) show False by simp
  qed
  from handle_endtag_last_occurrence [OF this] obtain pre h post where
    p: "tags st = pre @ (tag, h) # post" "handle_endtag tag st = Inr (st\<lparr>tags := pre\<rparr>)"
    by blast
  with assms(1) have st': "tags st' = pre" by auto
  have "pre \<noteq> []"
  proof
    assume "pre = []"
    with p(1) assms(4) have "(tag, h) = ([], False)" by simp
    with assms(2) show False by simp
  qed
  with p(1) assms(4) st' show ?thesis by simp
qed

lemma feed_keeps_sentinel:
  assumes "feed es st = Inr st'" and "EndTag [] \<notin> set es"
    and "tags st \<noteq> []" and "hd (tags st) = ([], False)"
  shows "tags st' \<noteq> [] \<and> hd (tags st') = ([], False)"
  using assms
proof (induction es arbitrary: st)
  case Nil
  then show ?case by simp
next
  case (Cons e es)
  from Cons.prems(1) obtain s where s: "handle e st = Inr s" "feed es s = Inr st'"
    by (auto split: sum.splits)
  have "tags s \<noteq> [] \<and> hd (tags s) = ([], False)"
  proof (cases e)
    case (StartTag tag attrs)
    with s(1) Cons.prems(3,4) show ?thesis by (auto simp: handle_starttag_def)
  next
    case (EndTag tag)
    with Cons.prems(2) have "tag \<noteq> []" by auto
    with EndTag s(1) Cons.prems(3,4) handle_endtag_keeps_sentinel [of tag st s]
    show ?thesis by simp
  next
    case (Data raw_text)
    with s(1) Cons.prems(3,4) show ?thesis
      by (auto simp: handle_data_def split: if_splits)
  qed
  with Cons.IH [OF s(2)] Cons.prems(2) show ?case by simp
qed

lemma parse_document_keeps_sentinel:
  "parse_document events st = Inr st' \<Longrightarrow> EndTag [] \<notin> set events \<Longrightarrow>
   tags st' \<noteq> [] \<and> hd (tags st') = ([], False)"
  unfolding parse_document_def by (erule feed_keeps_sentinel) simp_all

text \<open>
  C5. The stack does not stay non-empty over every sequence of tag events: on the
  document \<^verbatim>\<open></p>\<close>, whose only event is the end tag \<open>p\<close>, \<^verbatim>\<open>parse_document\<close> pops the
  sentinel, the stack is empty and \<^verbatim>\<open>IndexError\<close> is raised.
\<close>

theorem unmatched_endtag_pops_sentinel:
  "parse_document [EndTag ''p''] init = Inl (IndexError, init\<lparr>tags := []\<rparr>)"
  by (simp add: parse_document_def init_def handle_endtag.simps)

subsection \<open>Opening tags\<close>

text \<open>
  C6. \<^verbatim>\<open>handle_starttag\<close> appends exactly one frame and changes nothing else; the
  frame carries the tag name, and its hidden flag is true iff some attribute of the
  list is named \<open>hidden\<close>, whatever its value.
\<close>

theorem handle_starttag_hidden_flag:
  "handle_starttag tag attrs st
     = st\<lparr>tags := tags st @ [(tag, \<exists>v. (''hidden'', v) \<in> set attrs)]\<rparr>"
proof -
  have "(''hidden'' \<in> set (map fst attrs)) = (\<exists>v. (''hidden'', v) \<in> set attrs)"
    by force
  then show ?thesis by (simp add: handle_starttag_def)
qed

theorem handle_starttag_hidden_flag_witness:
  "handle_starttag ''div'' [(''class'', Some ''x''), (''hidden'', None)] init
     = init\<lparr>tags := [([], False), (''div'', True)]\<rparr>
   \<and> handle_starttag ''div'' [(''hidden'', Some ''false'')] init
     = init\<lparr>tags := [([], False), (''div'', True)]\<rparr>
   \<and> handle_starttag ''div'' [(''class'', Some ''hidden'')] init
     = init\<lparr>tags := [([], False), (''div'', False)]\<rparr>"
  using handle_starttag_hidden_flag [of "''div''" "[(''class'', Some ''x''), (''hidden'', None)]" init]
    handle_starttag_hidden_flag [of "''div''" "[(''hidden'', Some ''false'')]" init]
    handle_starttag_hidden_flag [of "''div''" "[(''class'', Some ''hidden'')]" init]
  by (simp add: init_def)

section \<open>Properties of the text extraction\<close>

lemma feed_append:
  "feed (es1 @ es2) st = (case feed es1 st of Inl err \<Rightarrow> Inl err | Inr s \<Rightarrow> feed es2 s)"
  by (induction es1 arbitrary: st) (auto split: sum.splits)

lemma feed_nodes:
  assumes "\<And>n st. n \<in> set nodes \<Longrightarrow> tags st \<noteq> [] \<Longrightarrow>
      feed (events_of n) st = Inr (st\<lparr>parsed_text := parsed_text st @ visible_text_spec (last (tags st)) n\<rparr>)"
    and "tags st \<noteq> []"
  shows "feed (concat (map events_of nodes)) st
           = Inr (st\<lparr>parsed_text := parsed_text st
                      @ concat (map (visible_text_spec (last (tags st))) nodes)\<rparr>)"
  using assms
proof (induction nodes arbitrary: st)
  case Nil
  then show ?case by simp
next
  case (Cons n ns)
  have one: "feed (events_of n) st
      = Inr (st\<lparr>parsed_text := parsed_text st @ visible_text_spec (last (tags st)) n\<rparr>)"
    using Cons.prems by simp
  let ?s = "st\<lparr>parsed_text := parsed_text st @ visible_text_spec (last (tags st)) n\<rparr>"
  have "feed (concat (map events_of ns)) ?s
      = Inr (?s\<lparr>parsed_text := parsed_text ?s @ concat (map (visible_text_spec (last (tags ?s))) ns)\<rparr>)"
    using Cons.prems by (intro Cons.IH) simp_all
  with one show ?case by (simp add: feed_append)
qed

lemma feed_node:
  "tags st \<noteq> [] \<Longrightarrow>
   feed (events_of n) st
     = Inr (st\<lparr>parsed_text := parsed_text st @ visible_text_spec (last (tags st)) n\<rparr>)"
proof (induction n arbitrary: st)
  case (Text raw_text)
  then show ?case by (simp add: handle_data_def)
next
  case (Element tag attrs children)
  let ?h = "''hidden'' \<in> set (map fst attrs)"
  let ?s1 = "st\<lparr>tags := tags st @ [(tag, ?h)]\<rparr>"
  have start: "handle_starttag tag attrs st = ?s1" by (simp add: handle_starttag_def)
  have ne: "tags ?s1 \<noteq> []" by simp
  have kids: "feed (concat (map events_of children)) ?s1
      = Inr (?s1\<lparr>parsed_text := parsed_text ?s1
               @ concat (map (visible_text_spec (last (tags ?s1))) children)\<rparr>)"
    using Element.IH ne by (intro feed_nodes) auto
  let ?s2 = "?s1\<lparr>parsed_text := parsed_text st
               @ concat (map (visible_text_spec (tag, ?h)) children)\<rparr>"
  have close: "handle_endtag tag ?s2
      = Inr (st\<lparr>parsed_text := parsed_text st @ concat (map (visible_text_spec (tag, ?h)) children)\<rparr>)"
    by (subst handle_endtag.simps) simp
  show ?case
    using start kids close by (simp add: feed_append)
qed

text \<open>
  C1, as stated, fails in two ways. The claim names \<open>comment\<close> as a member of the
  exclusion set, while the set of the source holds the comment opener \<open>!--\<close>: the
  text of an element named \<open>comment\<close> is appended. And the top of the stack is not
  always the innermost enclosing tag: in \<^verbatim>\<open><p hidden>a<br>b</p>c\<close> the start tag
  \<open>br\<close> has no end tag and stays on top, so \<open>b\<close>, enclosed by the hidden \<open>p\<close>, is
  appended.
\<close>

theorem comment_and_void_element_text_is_appended:
  "parse_document [StartTag ''comment'' [], Data ''x''] init
     = Inr (init\<lparr>tags := [([], False), (''comment'', False)], parsed_text := ''x''\<rparr>)
   \<and> parse_document
       [StartTag ''p'' [(''hidden'', None)], Data ''a'', StartTag ''br'' [], Data ''b'',
        EndTag ''p'', Data ''c''] init
     = Inr (init\<lparr>parsed_text := ''bc''\<rparr>)"
  by (simp add: parse_document_def init_def handle_starttag_def handle_data_def
      TAGS_TO_EXCLUDE_def handle_endtag.simps)

text \<open>
  C1, amended. At a text-data event with a non-empty stack the text is appended to
  \<open>parsed_text\<close> iff the name of the top frame is not in
  \<open>{!--, audio, canvas, iframe, noscript, script, source, style, title, video}\<close>
  and the hidden flag of the top frame is false; otherwise the state is unchanged.
  Consequently, for a properly nested document, in which every start tag has its
  own end tag, the extraction returns exactly the pieces of text whose innermost
  enclosing element is neither in that set nor hidden, in document order, and
  leaves the stack as it was. (Documents with start tags that are never closed
  are not covered.)
\<close>

theorem visible_text_extracted:
  assumes "tags st \<noteq> []"
  shows "handle_data raw_text st
           = Inr (if fst (last (tags st)) \<notin> {''!--'', ''audio'', ''canvas'', ''iframe'',
                       ''noscript'', ''script'', ''source'', ''style'', ''title'', ''video''}
                     \<and> \<not> snd (last (tags st))
                  then st\<lparr>parsed_text := parsed_text st @ raw_text\<rparr> else st)
    \<and> feed (concat (map events_of nodes)) st
           = Inr (st\<lparr>parsed_text := parsed_text st
                      @ concat (map (visible_text_spec (last (tags st))) nodes)\<rparr>)
    \<and> parse_document (concat (map events_of nodes)) st
           = Inr (st\<lparr>tags := [([], False)],
                     parsed_text := concat (map (visible_text_spec ([], False)) nodes)\<rparr>)"
proof -
  have "set TAGS_TO_EXCLUDE = {''!--'', ''audio'', ''canvas'', ''iframe'',
                       ''noscript'', ''script'', ''source'', ''style'', ''title'', ''video''}"
    by (simp add: TAGS_TO_EXCLUDE_def)
  then have data: "handle_data raw_text st
           = Inr (if fst (last (tags st)) \<notin> {''!--'', ''audio'', ''canvas'', ''iframe'',
                       ''noscript'', ''script'', ''source'', ''style'', ''title'', ''video''}
                     \<and> \<not> snd (last (tags st))
                  then st\<lparr>parsed_text := parsed_text st @ raw_text\<rparr> else st)"
    using assms by (simp add: handle_data_def)
  have run: "feed (concat (map events_of nodes)) s
           = Inr (s\<lparr>parsed_text := parsed_text s
                      @ concat (map (visible_text_spec (last (tags s))) nodes)\<rparr>)"
    if "tags s \<noteq> []" for s
    using that by (intro feed_nodes feed_node)
  have "parse_document (concat (map events_of nodes)) st
           = Inr (st\<lparr>tags := [([], False)],
                     parsed_text := concat (map (visible_text_spec ([], False)) nodes)\<rparr>)"
    unfolding parse_document_def
    by (subst run) simp_all
  with data run [OF assms] show ?thesis by blast
qed

theorem visible_text_extracted_witness:
  "tags init \<noteq> []
   \<and> handle_data ''x'' init = Inr (init\<lparr>parsed_text := ''x''\<rparr>)
   \<and> parse_document
        (concat (map events_of
           [Element ''p'' [] [Text ''a'', Element ''script'' [] [Text ''f()''], Text ''b''],
            Element ''div'' [(''hidden'', None)] [Text ''h''],
            Text ''c'']))
        init
      = Inr (init\<lparr>parsed_text := ''abc''\<rparr>)"
proof -
  have ne: "tags init \<noteq> []" by (simp add: init_def)
  from visible_text_extracted [OF ne, of "''x''"
      "[Element ''p'' [] [Text ''a'', Element ''script'' [] [Text ''f()''], Text ''b''],
        Element ''div'' [(''hidden'', None)] [Text ''h''],
        Text ''c'']"]
  show ?thesis
    by (simp add: init_def TAGS_TO_EXCLUDE_def)
qed

section \<open>Properties of the frequency ranking\<close>

lemma inj_rank_key: "inj_on rank_key A"
  by (auto simp: inj_on_def rank_key_def prod_eq_iff)

lemma set_word_frequency:
  "set (word_frequency words) = (\<lambda>w. (w, int (count_list words w))) ` set words"
  by (simp add: word_frequency_def)

lemma distinct_word_frequency: "distinct (map fst (word_frequency words))"
  by (simp add: word_frequency_def comp_def)

lemma length_word_frequency: "length (word_frequency words) = card (set words)"
  by (simp add: word_frequency_def length_remdups_card_conv)

lemma set_sorted_frequency:
  "set (sorted_frequency words) = (\<lambda>w. (w, int (count_list words w))) ` set words"
  by (simp add: sorted_frequency_def set_word_frequency)

lemma length_sorted_frequency: "length (sorted_frequency words) = card (set words)"
  by (simp add: sorted_frequency_def length_word_frequency)

lemma distinct_sorted_frequency: "distinct (map fst (sorted_frequency words))"
proof -
  have "mset (map fst (sorted_frequency words)) = mset (map fst (word_frequency words))"
    by (simp add: sorted_frequency_def)
  then show ?thesis using distinct_word_frequency by (metis mset_eq_imp_distinct_iff)
qed

lemma rank_key_less:
  "rank_key a < rank_key b \<longleftrightarrow> (case a of (w1, c1) \<Rightarrow> case b of (w2, c2) \<Rightarrow> c1 > c2 \<or> (c1 = c2 \<and> w1 < w2))"
  by (auto simp: rank_key_def split: prod.splits)

lemma ranked_sorted_frequency:
  "sorted_wrt (\<lambda>(w1, c1) (w2, c2). c1 > c2 \<or> (c1 = c2 \<and> w1 < w2)) (sorted_frequency words)"
proof -
  have d: "distinct (sorted_frequency words)"
    using distinct_sorted_frequency by (rule distinct_map [THEN iffD1, THEN conjunct1])
  have "sorted (map rank_key (sorted_frequency words))"
    by (simp add: sorted_frequency_def)
  moreover have "distinct (map rank_key (sorted_frequency words))"
    using d by (simp add: distinct_map inj_rank_key)
  ultimately have "sorted_wrt (<) (map rank_key (sorted_frequency words))"
    by (simp add: strict_sorted_iff)
  then have "sorted_wrt (\<lambda>a b. rank_key a < rank_key b) (sorted_frequency words)"
    by (simp add: sorted_wrt_map)
  then show ?thesis
    by (rule sorted_wrt_mono_rel [rotated]) (auto simp: rank_key_less)
qed

lemma ranked_unique:
  assumes "set ys = (\<lambda>w. (w, int (count_list words w))) ` set words"
    and "sorted_wrt (\<lambda>(w1, c1) (w2, c2). c1 > c2 \<or> (c1 = c2 \<and> w1 < w2)) ys"
  shows "ys = sorted_frequency words"
proof -
  from assms(2) have s: "sorted_wrt (\<lambda>a b. rank_key a < rank_key b) ys"
    by (rule sorted_wrt_mono_rel [rotated]) (auto simp: rank_key_less)
  then have "sorted_wrt (<) (map rank_key ys)" by (simp add: sorted_wrt_map)
  then have sd: "sorted (map rank_key ys)" "distinct (map rank_key ys)"
    by (simp_all add: strict_sorted_iff)
  then have dy: "distinct ys" by (simp add: distinct_map)
  have dx: "distinct (word_frequency words)"
    using distinct_word_frequency by (rule distinct_map [THEN iffD1, THEN conjunct1])
  have "mset (word_frequency words) = mset ys"
    using dx dy assms(1) by (simp add: set_eq_iff_mset_eq_distinct [symmetric] set_word_frequency)
  then have "sort_key rank_key (word_frequency words) = ys"
    using inj_rank_key sd(1) by (rule sort_key_inj_key_eq)
  then show ?thesis by (simp add: sorted_frequency_def)
qed

lemma sorted_frequency_any_order:
  assumes "distinct ks" and "set ks = set words"
  shows "sort_key rank_key (map (\<lambda>word. (word, int (count_list words word))) ks)
           = sorted_frequency words"
proof -
  have "mset ks = mset (remdups words)"
    using assms by (simp add: set_eq_iff_mset_eq_distinct [symmetric])
  then have "mset (map (\<lambda>word. (word, int (count_list words word))) ks) = mset (word_frequency words)"
    by (simp add: word_frequency_def)
  then show ?thesis
    unfolding sorted_frequency_def
    by (rule sort_key_eq_sort_key) (rule inj_rank_key)
qed

lemma find_most_frequent_words_take:
  "0 \<le> max_words \<Longrightarrow>
   find_most_frequent_words words max_words = take (nat max_words) (sorted_frequency words)"
  by (auto simp: find_most_frequent_words_def slice_to_def Let_def min_def)

lemma find_most_frequent_words_prefix:
  "\<exists>rest. find_most_frequent_words words max_words @ rest = sorted_frequency words"
  unfolding find_most_frequent_words_def slice_to_def Let_def
  by (metis append_take_drop_id)


text \<open>
  C3. Whatever the maximum, the result of \<^verbatim>\<open>find_most_frequent_words\<close> is an initial
  segment of the sequence of the distinct (token, count) pairs, each token paired
  with its number of occurrences, sorted by count descending and, among equal
  counts, by token ascending in the code-point order of strings. That sequence is
  the only list with these properties, and the result is the whole of it when the
  maximum is at least the number of distinct tokens.
\<close>

theorem ranked_result_sorted:
  "\<exists>rest.
      set (find_most_frequent_words words max_words @ rest)
        = (\<lambda>w. (w, int (count_list words w))) ` set words
    \<and> distinct (map fst (find_most_frequent_words words max_words @ rest))
    \<and> sorted_wrt (\<lambda>(w1, c1) (w2, c2). c1 > c2 \<or> (c1 = c2 \<and> w1 < w2))
         (find_most_frequent_words words max_words @ rest)
    \<and> (\<forall>ys. set ys = (\<lambda>w. (w, int (count_list words w))) ` set words
            \<and> sorted_wrt (\<lambda>(w1, c1) (w2, c2). c1 > c2 \<or> (c1 = c2 \<and> w1 < w2)) ys
          \<longrightarrow> ys = find_most_frequent_words words max_words @ rest)
    \<and> (int (card (set words)) \<le> max_words \<longrightarrow> rest = [])"
proof -
  from find_most_frequent_words_prefix obtain rest where
    r: "find_most_frequent_words words max_words @ rest = sorted_frequency words" by blast
  have full: "rest = []" if "int (card (set words)) \<le> max_words"
  proof -
    from that have "0 \<le> max_words" by simp
    then have "find_most_frequent_words words max_words
                 = take (nat max_words) (sorted_frequency words)"
      by (rule find_most_frequent_words_take)
    also have "\<dots> = sorted_frequency words"
      using that by (simp add: length_sorted_frequency)
    finally show ?thesis using r by simp
  qed
  show ?thesis
  proof (intro exI [of _ rest] conjI allI impI)
    show "set (find_most_frequent_words words max_words @ rest)
            = (\<lambda>w. (w, int (count_list words w))) ` set words"
      unfolding r by (rule set_sorted_frequency)
    show "distinct (map fst (find_most_frequent_words words max_words @ rest))"
      unfolding r by (rule distinct_sorted_frequency)
    show "sorted_wrt (\<lambda>(w1, c1) (w2, c2). c1 > c2 \<or> (c1 = c2 \<and> w1 < w2))
            (find_most_frequent_words words max_words @ rest)"
      unfolding r by (rule ranked_sorted_frequency)
  next
    fix ys
    assume "set ys = (\<lambda>w. (w, int (count_list words w))) ` set words
            \<and> sorted_wrt (\<lambda>(w1, c1) (w2, c2). c1 > c2 \<or> (c1 = c2 \<and> w1 < w2)) ys"
    then show "ys = find_most_frequent_words words max_words @ rest"
      unfolding r using ranked_unique by blast
  next
    assume "int (card (set words)) \<le> max_words"
    then show "rest = []" by (rule full)
  qed
qed

theorem ranked_result_sorted_witness:
  "int (card (set [''to'', ''be'', ''or'', ''not'', ''to'', ''be''])) \<le> 10
   \<and> find_most_frequent_words [''to'', ''be'', ''or'', ''not'', ''to'', ''be''] 10
       = [(''be'', 2), (''to'', 2), (''not'', 1), (''or'', 1)]
   \<and> sorted_wrt (\<lambda>(w1, c1) (w2, c2). c1 > c2 \<or> (c1 = c2 \<and> w1 < w2))
       (find_most_frequent_words [''to'', ''be'', ''or'', ''not'', ''to'', ''be''] 10)
   \<and> distinct (map fst (find_most_frequent_words [''to'', ''be'', ''or'', ''not'', ''to'', ''be''] 10))"
proof -
  have c: "int (card (set [''to'', ''be'', ''or'', ''not'', ''to'', ''be''])) \<le> 10"
    by (subst List.card_set) simp
  have e: "find_most_frequent_words [''to'', ''be'', ''or'', ''not'', ''to'', ''be''] 10
       = [(''be'', 2), (''to'', 2), (''not'', 1), (''or'', 1)]"
    by code_simp
  from ranked_result_sorted [of "[''to'', ''be'', ''or'', ''not'', ''to'', ''be'']" 10] c
  have "distinct (map fst (find_most_frequent_words [''to'', ''be'', ''or'', ''not'', ''to'', ''be''] 10))
    \<and> sorted_wrt (\<lambda>(w1, c1) (w2, c2). c1 > c2 \<or> (c1 = c2 \<and> w1 < w2))
       (find_most_frequent_words [''to'', ''be'', ''or'', ''not'', ''to'', ''be''] 10)"
    by auto
  with c e show ?thesis by blast
qed

text \<open>
  C7. For a maximum \<open>max_words \<ge> 0\<close> the result is exactly the first
  \<open>min max_words (number of distinct tokens)\<close> entries of the sorted pair sequence.
\<close>

theorem ranked_result_truncated:
  "0 \<le> max_words \<Longrightarrow>
   find_most_frequent_words words max_words
     = take (min (nat max_words) (card (set words))) (sorted_frequency words)
   \<and> length (find_most_frequent_words words max_words) = min (nat max_words) (card (set words))"
  by (simp add: find_most_frequent_words_take length_sorted_frequency [symmetric] min_def)

theorem ranked_result_truncated_witness:
  "(0 :: int) \<le> 1
   \<and> find_most_frequent_words [''to'', ''be'', ''or'', ''not'', ''to'', ''be''] 1 = [(''be'', 2)]"
proof -
  have s: "sorted_frequency [''to'', ''be'', ''or'', ''not'', ''to'', ''be'']
             = [(''be'', 2), (''to'', 2), (''not'', 1), (''or'', 1)]"
    by code_simp
  have c: "card (set [''to'', ''be'', ''or'', ''not'', ''to'', ''be'']) = 4"
    by (subst List.card_set) simp
  from ranked_result_truncated [of 1 "[''to'', ''be'', ''or'', ''not'', ''to'', ''be'']",
      unfolded s c]
  show ?thesis by simp
qed

text \<open>
  C4. A negative maximum does not give the empty result: the slice
  \<^verbatim>\<open>sorted_frequency[:-1]\<close> drops the last entry only. (The maximum 0 does give the
  empty list.)
\<close>

theorem negative_max_keeps_entries:
  "find_most_frequent_words [''to'', ''be'', ''or'', ''not'', ''to'', ''be''] (- 1)
     = [(''be'', 2), (''to'', 2), (''not'', 1)]"
  by code_simp

section \<open>Properties of the clean-up: periods and commas\<close>

lemma length_nan_sub_from: "length (nan_sub_from prev s) = length s"
  by (induction s arbitrary: prev) auto

lemma nan_sub_from_nth:
  "i < length s \<Longrightarrow>
   nan_sub_from prev s ! i =
     (if (s ! i = CHR ''.'' \<or> s ! i = CHR '','')
         \<and> \<not> (if i = 0 then (case prev of None \<Rightarrow> False | Some p \<Rightarrow> is_digit p)
                else is_digit (s ! (i - 1)))
         \<and> \<not> (i + 1 < length s \<and> is_digit (s ! (i + 1)))
      then CHR '' '' else s ! i)"
proof (induction s arbitrary: prev i)
  case Nil
  then show ?case by simp
next
  case (Cons c cs)
  show ?case
  proof (cases i)
    case 0
    then show ?thesis by (cases cs) auto
  next
    case (Suc j)
    with Cons.prems have j: "j < length cs" by simp
    show ?thesis
      unfolding Suc using Cons.IH [OF j, of "Some c"]
      by (cases j) auto
  qed
qed

lemma nan_sub_nth:
  "i < length t \<Longrightarrow>
   nan_sub t ! i =
     (if (t ! i = CHR ''.'' \<or> t ! i = CHR '','')
         \<and> \<not> (0 < i \<and> is_digit (t ! (i - 1)))
         \<and> \<not> (i + 1 < length t \<and> is_digit (t ! (i + 1)))
      then CHR '' '' else t ! i)"
  unfolding nan_sub_def by (subst nan_sub_from_nth) auto

lemma replace_scan_single_delete: "replace_scan [x] [] s = filter (\<lambda>c. c \<noteq> x) s"
  by (induction s) auto

lemma replace_single_delete: "replace [x] [] s = filter (\<lambda>c. c \<noteq> x) s"
  by (simp add: replace_def replace_scan_single_delete)

lemma remove_symbols_eq:
  "remove_symbols text = filter (\<lambda>c. c \<noteq> CHR 0x27) (replace ''&nbsp;'' [] text)"
  by (simp add: remove_symbols_def symbols_to_remove_def replace_single_delete)


text \<open>
  C2. The substitution does not replace every period or comma that lacks a digit
  on one side: its pattern matches only where neither neighbour is a digit. The
  commas and the final period of \<open>1, 2, 3.\<close>, none of them inside a number, are
  kept, and so is every period or comma with a digit on exactly one side.
\<close>

theorem one_sided_digit_period_is_kept:
  "remove_extra_characters ''1, 2, 3.'' = ''1, 2, 3.''
   \<and> remove_extra_characters ''3.'' = ''3.''
   \<and> remove_extra_characters ''.5'' = ''.5''
   \<and> remove_extra_characters ''1..2'' = ''1..2''"
  by code_simp

section \<open>Properties of the tokenization\<close>

lemma lower_char_nat:
  "of_char (lower_char c) =
     (let n = of_char c :: nat
      in if (65 \<le> n \<and> n \<le> 90) \<or> (192 \<le> n \<and> n \<le> 222 \<and> n \<noteq> 215) then n + 32 else n)"
proof -
  have "(of_char c :: nat) mod 256 = of_char c" by (rule of_char_mod_256)
  then have n: "of_char c < (256 :: nat)"
    by (metis mod_less_divisor zero_less_numeral)
  have "(of_char (CHR 0xD7) :: nat) = 215" by simp
  then have d: "c \<noteq> CHR 0xD7 \<longleftrightarrow> (of_char c :: nat) \<noteq> 215"
    by (metis of_char_eq_iff)
  show ?thesis
    unfolding lower_char_def less_eq_char_def d Let_def
    using n by auto
qed

lemma lower_char_idem: "lower_char (lower_char c) = lower_char c"
proof -
  have "(of_char (lower_char (lower_char c)) :: nat) = of_char (lower_char c)"
    by (simp add: lower_char_nat [of "lower_char c"]) (auto simp: lower_char_nat Let_def)
  then show ?thesis by simp
qed

lemma split_Nil: "split [] = []"
  by (subst split.simps) simp

lemma split_space: "is_space c \<Longrightarrow> split (c # cs) = split cs"
  by (subst split.simps, subst (2) split.simps) simp

lemma split_word:
  "\<not> is_space c \<Longrightarrow>
   split (c # cs) = (c # takeWhile (\<lambda>c. \<not> is_space c) cs) # split (dropWhile (\<lambda>c. \<not> is_space c) cs)"
  by (subst split.simps) simp

lemma fields_decompose:
  "fields s = takeWhile (\<lambda>c. \<not> is_space c) s
     # (case dropWhile (\<lambda>c. \<not> is_space c) s of [] \<Rightarrow> [] | w # rest \<Rightarrow> fields rest)"
  by (induction s) auto

lemma split_fields: "split s = filter (\<lambda>token. token \<noteq> []) (fields s)"
proof (induction s rule: length_induct)
  case (1 s)
  show ?case
  proof (cases s)
    case Nil
    then show ?thesis by (simp add: split_Nil)
  next
    case (Cons c cs)
    show ?thesis
    proof (cases "is_space c")
      case True
      with Cons 1 show ?thesis by (simp add: split_space)
    next
      case False
      let ?d = "dropWhile (\<lambda>c. \<not> is_space c) cs"
      have le: "length ?d \<le> length cs" by (rule length_dropWhile_le)
      have f: "fields (c # cs) = (c # takeWhile (\<lambda>c. \<not> is_space c) cs)
                 # (case ?d of [] \<Rightarrow> [] | w # rest \<Rightarrow> fields rest)"
        using False by (subst fields_decompose) simp
      have "split ?d = filter (\<lambda>token. token \<noteq> []) (case ?d of [] \<Rightarrow> [] | w # rest \<Rightarrow> fields rest)"
      proof (cases ?d)
        case Nil
        show ?thesis unfolding Nil by (simp add: split_Nil)
      next
        case d: (Cons w rest)
        then have "\<not> \<not> is_space w" using hd_dropWhile [of "\<lambda>c. \<not> is_space c" cs] by simp
        then have w: "is_space w" by simp
        have "length rest < length s" using le d Cons by simp
        with 1 have "split rest = filter (\<lambda>token. token \<noteq> []) (fields rest)" by blast
        with w show ?thesis unfolding d by (simp add: split_space)
      qed
      with False Cons f show ?thesis by (simp add: split_word)
    qed
  qed
qed

lemma fields_no_space: "\<forall>f \<in> set (fields s). \<forall>c \<in> set f. \<not> is_space c"
  by (induction s) (auto split: list.splits)

lemma concat_fields: "concat (fields s) = filter (\<lambda>c. \<not> is_space c) s"
  by (induction s) (auto split: list.splits)

lemma concat_filter_nonempty: "concat (filter (\<lambda>x. x \<noteq> []) xs) = concat xs"
  by (induction xs) auto

lemma concat_split: "concat (split s) = filter (\<lambda>c. \<not> is_space c) s"
  by (simp add: split_fields concat_filter_nonempty concat_fields)

lemma split_tokens: "t \<in> set (split s) \<Longrightarrow> t \<noteq> [] \<and> (\<forall>c \<in> set t. \<not> is_space c)"
  using fields_no_space by (auto simp: split_fields)

text \<open>
  C9. \<open>tokenize\<close> is the tokenization of the specification: the text is cut at
  white space, empty pieces are discarded and every token is lowercased. The
  words \<^verbatim>\<open>split()\<close> returns are non-empty and free of white space, and joined in
  their order they are the text without its white space, so the tokens come in
  their original order and none is dropped or merged. Lowercasing changes no
  token of the result any more.
\<close>

theorem tokenize_splits_and_lowercases:
  "tokenize text = tokenize_spec text
   \<and> tokenize text = map lower (split text)
   \<and> (\<forall>word \<in> set (split text). word \<noteq> [] \<and> (\<forall>c \<in> set word. \<not> is_space c))
   \<and> concat (split text) = filter (\<lambda>c. \<not> is_space c) text
   \<and> (\<forall>token \<in> set (tokenize text). lower token = token)
   \<and> tokenize ''hello heLLO HELLO'' = [''hello'', ''hello'', ''hello'']"
proof -
  have "tokenize ''hello heLLO HELLO'' = [''hello'', ''hello'', ''hello'']"
    by code_simp
  moreover have "\<forall>token \<in> set (tokenize text). lower token = token"
    by (auto simp: tokenize_def lower_def lower_char_idem)
  ultimately show ?thesis
    using split_tokens concat_split
    by (auto simp: tokenize_def tokenize_spec_def split_fields [symmetric])
qed

theorem tokenize_splits_and_lowercases_witness:
  "tokenize '' To  be OR'' = [''to'', ''be'', ''or'']
   \<and> tokenize_spec '' To  be OR'' = [''to'', ''be'', ''or'']
   \<and> concat (split '' To  be OR'') = ''TobeOR''"
proof -
  have "tokenize '' To  be OR'' = [''to'', ''be'', ''or'']" by code_simp
  moreover have "filter (\<lambda>c. \<not> is_space c) '' To  be OR'' = ''TobeOR''"
    by (simp add: is_space_def)
  ultimately show ?thesis
    using tokenize_splits_and_lowercases [of "'' To  be OR''"] by simp
qed

section \<open>Properties of the clean-up: removed symbols\<close>

lemma replace_scan_match:
  assumes "old \<noteq> []" and "take (length old) s = old"
  shows "replace_scan old new s = new @ replace_scan old new (drop (length old) s)"
proof (cases s)
  case Nil
  with assms show ?thesis by simp
next
  case (Cons c cs)
  with assms show ?thesis by simp
qed

lemma replace_scan_skip:
  "take (length old) (c # cs) \<noteq> old \<Longrightarrow>
   replace_scan old new (c # cs) = c # replace_scan old new cs"
  by simp

lemma no_straddle:
  assumes "a \<noteq> []" and "length a < length old"
    and free: "\<forall>k. 0 < k \<and> k < length old \<longrightarrow> drop k old \<noteq> take (length old - k) old"
  shows "take (length old) (a @ old @ b) \<noteq> old"
proof
  assume "take (length old) (a @ old @ b) = old"
  then have "old = a @ take (length old - length a) old"
    using assms(2) by simp
  then have "drop (length a) old = drop (length a) (a @ take (length old - length a) old)"
    by simp
  then have "drop (length a) old = take (length old - length a) old"
    by simp
  moreover have "0 < length a \<and> length a < length old" using assms by simp
  ultimately show False using free by blast
qed

lemma replace_scan_occurrence:
  assumes "old \<noteq> []"
    and free: "\<forall>k. 0 < k \<and> k < length old \<longrightarrow> drop k old \<noteq> take (length old - k) old"
  shows "replace_scan old new (a @ old @ b)
           = replace_scan old new a @ new @ replace_scan old new b"
proof (induction a rule: length_induct)
  case (1 a)
  show ?case
  proof (cases a)
    case Nil
    have "take (length old) (old @ b) = old" by simp
    from replace_scan_match [OF assms(1) this] show ?thesis unfolding Nil by simp
  next
    case (Cons c cs)
    show ?thesis
    proof (cases "take (length old) a = old")
      case True
      then have "length (take (length old) a) = length old" by simp
      then have len: "length old \<le> length a" by simp
      have "length (drop (length old) a) < length a"
        using Cons assms(1) by simp
      with 1 have ih: "replace_scan old new (drop (length old) a @ old @ b)
         = replace_scan old new (drop (length old) a) @ new @ replace_scan old new b" by blast
      have "take (length old) (a @ old @ b) = old" using len True by simp
      from replace_scan_match [OF assms(1) this]
      have "replace_scan old new (a @ old @ b)
              = new @ replace_scan old new (drop (length old) a @ old @ b)"
        using len by simp
      with ih replace_scan_match [OF assms(1) True] show ?thesis by simp
    next
      case False
      have nt: "take (length old) (a @ old @ b) \<noteq> old"
      proof (cases "length old \<le> length a")
        case True
        then show ?thesis using False by simp
      next
        case short: False
        then show ?thesis using no_straddle [of a old b] Cons free by simp
      qed
      have "length cs < length a" using Cons by simp
      with 1 have ih: "replace_scan old new (cs @ old @ b)
         = replace_scan old new cs @ new @ replace_scan old new b" by blast
      have "replace_scan old new a = c # replace_scan old new cs"
        using False unfolding Cons by (rule replace_scan_skip)
      moreover have "replace_scan old new (a @ old @ b)
              = c # replace_scan old new (cs @ old @ b)"
        using nt unfolding Cons append_Cons by (rule replace_scan_skip)
      ultimately show ?thesis using ih by simp
    qed
  qed
qed

lemma replace_scan_absent:
  "(\<nexists>a b. s = a @ old @ b) \<Longrightarrow> replace_scan old new s = s"
proof (induction s)
  case Nil
  then show ?case by simp
next
  case (Cons c cs)
  have "take (length old) (c # cs) \<noteq> old"
  proof
    assume "take (length old) (c # cs) = old"
    then have "c # cs = [] @ old @ drop (length old) (c # cs)"
      by (metis append_Nil append_take_drop_id)
    with Cons.prems show False by blast
  qed
  moreover have "\<nexists>a b. cs = a @ old @ b"
  proof
    assume "\<exists>a b. cs = a @ old @ b"
    then obtain a b where "cs = a @ old @ b" by blast
    then have "c # cs = (c # a) @ old @ b" by simp
    with Cons.prems show False by blast
  qed
  ultimately show ?case using Cons.IH by (simp add: replace_scan_skip)
qed

lemma nbsp_border_free:
  "\<forall>k. 0 < k \<and> k < length ''&nbsp;'' \<longrightarrow> drop k ''&nbsp;'' \<noteq> take (length ''&nbsp;'' - k) ''&nbsp;''"
proof (intro allI impI)
  fix k :: nat
  assume "0 < k \<and> k < length ''&nbsp;''"
  then have "k = 1 \<or> k = 2 \<or> k = 3 \<or> k = 4 \<or> k = 5" by auto
  then show "drop k ''&nbsp;'' \<noteq> take (length ''&nbsp;'' - k) ''&nbsp;''"
    by (elim disjE) simp_all
qed

lemma replace_nbsp_occurrence:
  "replace ''&nbsp;'' [] (a @ ''&nbsp;'' @ b) = replace ''&nbsp;'' [] a @ replace ''&nbsp;'' [] b"
  using replace_scan_occurrence [OF _ nbsp_border_free, of "[]" a b]
  by (simp add: replace_def)

lemma replace_nbsp_absent:
  "(\<nexists>a b. s = a @ ''&nbsp;'' @ b) \<Longrightarrow> replace ''&nbsp;'' [] s = s"
  using replace_scan_absent [of s "''&nbsp;''" "[]"] by (simp add: replace_def)


lemma set_replace_scan: "set (replace_scan old new s) \<subseteq> set s \<union> set new"
proof (induction s rule: length_induct)
  case (1 s)
  show ?case
  proof (cases s)
    case Nil
    then show ?thesis by simp
  next
    case (Cons c cs)
    show ?thesis
    proof (cases "old \<noteq> [] \<and> take (length old) s = old")
      case True
      then have "length (drop (length old) s) < length s" using Cons by simp
      with 1 have "set (replace_scan old new (drop (length old) s))
                   \<subseteq> set (drop (length old) s) \<union> set new" by blast
      moreover have "set (drop (length old) s) \<subseteq> set s" by (rule set_drop_subset)
      moreover have "replace_scan old new s = new @ replace_scan old new (drop (length old) s)"
        using True by (simp add: replace_scan_match)
      ultimately show ?thesis by auto
    next
      case False
      have "length cs < length s" using Cons by simp
      with 1 have "set (replace_scan old new cs) \<subseteq> set cs \<union> set new" by blast
      moreover have "replace_scan old new s = c # replace_scan old new cs"
        using False Cons by auto
      ultimately show ?thesis using Cons by auto
    qed
  qed
qed

lemma set_replace: "set (replace old new s) \<subseteq> set s \<union> set new"
  using set_replace_scan [of old new s] by (auto simp: replace_def)

lemma set_fold_replace:
  "set (fold (\<lambda>symbol t. replace symbol new t) symbols s) \<subseteq> set s \<union> set new"
proof (induction symbols arbitrary: s)
  case Nil
  then show ?case by simp
next
  case (Cons x xs)
  have "set (fold (\<lambda>symbol t. replace symbol new t) xs (replace x new s))
          \<subseteq> set (replace x new s) \<union> set new" by (rule Cons.IH)
  with set_replace [of x new s] show ?case by auto
qed

lemma set_nan_sub_from: "set (nan_sub_from prev s) \<subseteq> set s \<union> {CHR '' ''}"
  by (induction s arbitrary: prev) auto

lemma no_apostrophe_remove_symbols: "CHR 0x27 \<notin> set (remove_symbols text)"
  by (simp add: remove_symbols_def symbols_to_remove_def replace_def replace_scan_single_delete)

lemma no_apostrophe_result: "CHR 0x27 \<notin> set (remove_extra_characters text)"
proof -
  have "set (remove_extra_characters text) \<subseteq> set (replace_symbols (remove_symbols text)) \<union> {CHR '' ''}"
    unfolding remove_extra_characters_def nan_sub_def by (rule set_nan_sub_from)
  moreover have "set (replace_symbols (remove_symbols text)) \<subseteq> set (remove_symbols text) \<union> set '' ''"
    unfolding replace_symbols_def by (rule set_fold_replace)
  ultimately have "set (remove_extra_characters text) \<subseteq> set (remove_symbols text) \<union> {CHR '' ''}"
    by auto
  with no_apostrophe_remove_symbols [of "text"] show ?thesis by auto
qed

text \<open>
  C8. The clean-up first removes symbols, then replaces symbols, then treats
  periods and commas. The removal step deletes every occurrence of \<open>&nbsp;\<close> (the
  text around an occurrence is cleaned up on each side and joined with nothing in
  between; a text without an occurrence is unchanged) and then every apostrophe,
  and no apostrophe is left in the result. \<open>kitten&nbsp;9\<close> becomes \<open>kitten9\<close> and
  \<open>world's\<close> becomes \<open>worlds\<close>.
\<close>

theorem entity_and_apostrophe_deleted:
  "remove_extra_characters text = nan_sub (replace_symbols (remove_symbols text))
   \<and> remove_symbols text = filter (\<lambda>c. c \<noteq> CHR 0x27) (replace ''&nbsp;'' [] text)
   \<and> replace ''&nbsp;'' [] (a @ ''&nbsp;'' @ b) = replace ''&nbsp;'' [] a @ replace ''&nbsp;'' [] b
   \<and> ((\<nexists>u v. s = u @ ''&nbsp;'' @ v) \<longrightarrow> replace ''&nbsp;'' [] s = s)
   \<and> CHR 0x27 \<notin> set (remove_extra_characters text)
   \<and> remove_extra_characters ''kitten&nbsp;9'' = ''kitten9''
   \<and> remove_extra_characters (''world'' @ [CHR 0x27] @ ''s'') = ''worlds''"
proof -
  have e1: "remove_extra_characters ''kitten&nbsp;9'' = ''kitten9''" by code_simp
  have e2: "remove_extra_characters (''world'' @ [CHR 0x27] @ ''s'') = ''worlds''" by code_simp
  note r = remove_symbols_eq [of "text"]
  show ?thesis
    using e1 e2 r replace_nbsp_occurrence [of a b] replace_nbsp_absent [of s]
      no_apostrophe_result [of "text"]
    by (simp add: remove_extra_characters_def)
qed

theorem entity_and_apostrophe_deleted_witness:
  "(\<nexists>u v. ''kitten9'' = u @ ''&nbsp;'' @ v)
   \<and> replace ''&nbsp;'' [] ''kitten9'' = ''kitten9''
   \<and> replace ''&nbsp;'' [] (''kitten'' @ ''&nbsp;'' @ ''9'') = ''kitten9''
   \<and> remove_symbols (''it'' @ [CHR 0x27] @ ''s&nbsp;9'') = ''its9''"
proof -
  have h: "\<nexists>u v. ''kitten9'' = u @ ''&nbsp;'' @ v"
  proof
    assume "\<exists>u v. ''kitten9'' = u @ ''&nbsp;'' @ v"
    then obtain u v where "''kitten9'' = u @ ''&nbsp;'' @ v" by blast
    then have "set ''kitten9'' = set (u @ ''&nbsp;'' @ v)" by simp
    then show False by auto
  qed
  have "remove_symbols (''it'' @ [CHR 0x27] @ ''s&nbsp;9'') = ''its9''" by code_simp
  moreover have "replace ''&nbsp;'' [] ''kitten'' @ replace ''&nbsp;'' [] ''9'' = ''kitten9''"
    by code_simp
  ultimately show ?thesis
    using h entity_and_apostrophe_deleted [of "''it'' @ [CHR 0x27] @ ''s&nbsp;9''" "''kitten''" "''9''" "''kitten9''"]
    by simp
qed

end
